theory Spec2Isabelle
  imports Main "HOL-Library.Word" "HOL-Library.Sublist"
begin

unbundle bit_operations_syntax

section \<open>Data model of the DASH audio download (main.py)\<close>

type_synonym byte = "8 word"
type_synonym bytes = "byte list"

text \<open>
  Python exceptions that the modelled functions let escape. \<open>AttributeError\<close> is a
  method call on \<open>None\<close> (a missing XML element), \<open>TypeError\<close> is \<open>int(None)\<close>,
  \<open>ValueError\<close> comes from \<open>int()\<close>, \<open>bytes.fromhex\<close> and the cipher,
  \<open>TransportError\<close> is any exception of the HTTP client.
\<close>

datatype exn = AttributeError | TypeError | ValueError | TransportError

text \<open>
  The parsed manifest, as far as \<open>_download_dash_audio\<close> and \<open>_parse_adaptation_set\<close>
  read it. An optional child element or attribute is an \<open>option\<close>; attribute values are
  the strings of the document.
\<close>

record s_elem =
  s_d :: "string option"
  s_r :: "string option"

record crypto_period =
  keyUriTemplate :: "string option"
  IV :: "string option"

record content_protection =
  CryptoPeriod :: "crypto_period option"

record segment_template =
  initialization :: "string option"
  media :: "string option"
  SegmentTimeline :: "s_elem list option"

record representation =
  rep_id :: "string option"

record adaptation_set =
  contentType :: "string option"
  Label :: "string option option"
  ContentProtection :: "content_protection option"
  SegmentTemplate :: "segment_template option"
  Representation :: "representation option"

record manifest =
  BaseURL :: string
  Period :: "adaptation_set list option"

text \<open>The dictionary returned by \<open>_parse_adaptation_set\<close>, and the same dictionary
  with the \<open>label\<close> key that \<open>_download_dash_audio\<close> adds to the selected one
  (\<open>None\<close> is the text of an empty \<open>Label\<close> element).\<close>

record track =
  key_url :: string
  iv :: bytes
  init_url :: string
  media_tpl :: string
  segment_times :: "int list"

record audio_track = track +
  label :: "string option"

section \<open>Segment timeline (main.py, lines 332-340)\<close>

text \<open>
  \<open>d = int(s_elem.get("d"))\<close> and \<open>r = int(s_elem.get("r", "0"))\<close>. The builtin
  \<open>int\<close> on a string is the parameter \<open>py_int\<close>; \<open>None\<close> is its \<open>ValueError\<close>.
  A missing \<open>d\<close> is \<open>int(None)\<close>, a \<open>TypeError\<close>.
\<close>

definition read_S :: "(string \<Rightarrow> int option) \<Rightarrow> s_elem \<Rightarrow> exn + (int \<times> int)" where
  "read_S py_int s =
     (case s_d s of
        None \<Rightarrow> Inl TypeError
      | Some ds \<Rightarrow>
          (case py_int ds of
             None \<Rightarrow> Inl ValueError
           | Some d \<Rightarrow>
               (case py_int (case s_r s of None \<Rightarrow> ''0'' | Some rs \<Rightarrow> rs) of
                  None \<Rightarrow> Inl ValueError
                | Some r \<Rightarrow> Inr (d, r))))"

text \<open>The inner loop \<open>for _ in range(r + 1): times.append(t); t += d\<close>, on the state
  \<open>(tms, t)\<close> (\<open>tms\<close> is the list \<open>times\<close>); \<open>n\<close> is the number of iterations.\<close>

fun emit :: "nat \<Rightarrow> int \<Rightarrow> int list \<times> int \<Rightarrow> int list \<times> int" where
  "emit 0 d st = st"
| "emit (Suc n) d (tms, t) = emit n d (tms @ [t], t + d)"

text \<open>The outer loop over the \<open>S\<close> elements. \<open>range(r + 1)\<close> has \<open>nat (r + 1)\<close>
  elements: none when \<open>r + 1 \<le> 0\<close>.\<close>

fun timeline_loop ::
  "(string \<Rightarrow> int option) \<Rightarrow> s_elem list \<Rightarrow> int list \<times> int \<Rightarrow> exn + (int list \<times> int)" where
  "timeline_loop py_int [] st = Inr st"
| "timeline_loop py_int (s # ss) st =
     (case read_S py_int s of
        Inl e \<Rightarrow> Inl e
      | Inr (d, r) \<Rightarrow> timeline_loop py_int ss (emit (nat (r + 1)) d st))"

definition expand_timeline :: "(string \<Rightarrow> int option) \<Rightarrow> s_elem list \<Rightarrow> exn + int list" where
  "expand_timeline py_int ss =
     (case timeline_loop py_int ss ([], 0) of Inl e \<Rightarrow> Inl e | Inr (tms, t) \<Rightarrow> Inr tms)"

text \<open>
  The Segment Timeline Builder in the words of the specification: a running clock emits
  a timestamp and then advances by the entry's duration, \<open>r + 1\<close> times for each entry,
  across the entries in document order.
\<close>

fun spec_ticks :: "nat \<Rightarrow> int \<Rightarrow> int \<Rightarrow> int list" where
  "spec_ticks 0 d t = []"
| "spec_ticks (Suc n) d t = t # spec_ticks n d (t + d)"

fun spec_clock :: "int \<Rightarrow> (int \<times> int) list \<Rightarrow> int list" where
  "spec_clock t [] = []"
| "spec_clock t ((d, r) # es) =
     spec_ticks (nat (r + 1)) d t @ spec_clock (t + int (nat (r + 1)) * d) es"

section \<open>String and byte helpers of the Python library\<close>

text \<open>
  \<open>s.replace(old, new)\<close>: the occurrences of \<open>old\<close> are found from left to right and do
  not overlap. \<open>replace_from\<close> walks the string; its counter is the number of characters
  of a match still to be dropped. For an empty \<open>old\<close> Python puts \<open>new\<close> before every
  character and at the end.
\<close>

fun replace_from :: "string \<Rightarrow> string \<Rightarrow> nat \<Rightarrow> string \<Rightarrow> string" where
  "replace_from old new k [] = []"
| "replace_from old new (Suc k) (c # cs) = replace_from old new k cs"
| "replace_from old new 0 (c # cs) =
     (if prefix old (c # cs) then new @ replace_from old new (length old - 1) cs
      else c # replace_from old new 0 cs)"

definition py_replace :: "string \<Rightarrow> string \<Rightarrow> string \<Rightarrow> string" where
  "py_replace old new s =
     (if old = [] then new @ concat (map (\<lambda>c. c # new) s) else replace_from old new 0 s)"

text \<open>\<open>str(n)\<close> for an integer: decimal digits, with a minus sign when negative.\<close>

definition digit_char :: "nat \<Rightarrow> char" where
  "digit_char n = char_of (48 + n)"

function str_nat :: "nat \<Rightarrow> string" where
  "str_nat n = (if n < 10 then [digit_char n] else str_nat (n div 10) @ [digit_char (n mod 10)])"
  by pat_completeness auto
termination
  by (relation "measure id") auto

declare str_nat.simps [simp del]

definition py_str :: "int \<Rightarrow> string" where
  "py_str i = (if i < 0 then CHR ''-'' # str_nat (nat (- i)) else str_nat (nat i))"

text \<open>
  \<open>bytes.fromhex(s)\<close>: ASCII whitespace (space, tab, line feed, vertical tab, form feed,
  carriage return) is skipped between bytes; every byte is two hexadecimal digits; anything
  else, also a digit alone at the end, is a \<open>ValueError\<close>.
\<close>

definition is_space :: "char \<Rightarrow> bool" where
  "is_space c = (of_char c \<in> {32, 9, 10, 11, 12, 13 :: nat})"

definition hex_val :: "char \<Rightarrow> nat option" where
  "hex_val c =
     (let n = (of_char c :: nat) in
      if 48 \<le> n \<and> n \<le> 57 then Some (n - 48)
      else if 97 \<le> n \<and> n \<le> 102 then Some (n - 87)
      else if 65 \<le> n \<and> n \<le> 70 then Some (n - 55)
      else None)"

fun fromhex :: "string \<Rightarrow> exn + bytes" where
  "fromhex [] = Inr []"
| "fromhex [c] = (if is_space c then Inr [] else Inl ValueError)"
| "fromhex (c # c2 # cs) =
     (if is_space c then fromhex (c2 # cs)
      else (case hex_val c of
              None \<Rightarrow> Inl ValueError
            | Some hi \<Rightarrow>
                (case hex_val c2 of
                   None \<Rightarrow> Inl ValueError
                 | Some lo \<Rightarrow>
                     (case fromhex cs of
                        Inl e \<Rightarrow> Inl e
                      | Inr bs \<Rightarrow> Inr (of_nat (hi * 16 + lo) # bs)))))"

section \<open>\<open>_parse_adaptation_set\<close> (main.py, lines 316-348)\<close>

text \<open>
  \<open>html.unescape\<close> is the parameter \<open>unescape\<close>. A method call on a missing element is an
  \<open>AttributeError\<close>. The statements are in the order of the source, so the first exception
  raised there is the one returned here.
\<close>

text \<open>Lines 318-319: the \<open>CryptoPeriod\<close> of the \<open>ContentProtection\<close> element, \<open>None\<close> when
  either is missing.\<close>

definition crypto_of :: "adaptation_set \<Rightarrow> crypto_period option" where
  "crypto_of adapt =
     (case ContentProtection adapt of None \<Rightarrow> None | Some cp \<Rightarrow> CryptoPeriod cp)"

definition parse_adaptation_set ::
  "(string \<Rightarrow> string) \<Rightarrow> (string \<Rightarrow> int option) \<Rightarrow> adaptation_set \<Rightarrow> string \<Rightarrow> exn + track" where
  "parse_adaptation_set unescape py_int adapt base_url =
     (let crypto = crypto_of adapt;
          kurl = (case crypto of
                    None \<Rightarrow> ''''
                  | Some c \<Rightarrow> unescape (case keyUriTemplate c of None \<Rightarrow> '''' | Some u \<Rightarrow> u));
          iv_hex = (case crypto of
                      None \<Rightarrow> ''''
                    | Some c \<Rightarrow>
                        (case IV c of
                           None \<Rightarrow> ''0x00000000000000000000000000000000''
                         | Some v \<Rightarrow> v))
      in case fromhex (py_replace ''0x'' '''' iv_hex) of
           Inl e \<Rightarrow> Inl e
         | Inr ivb \<Rightarrow>
             (case SegmentTemplate adapt of
                None \<Rightarrow> Inl AttributeError
              | Some seg_tpl \<Rightarrow>
                  (let init_tpl = unescape (case initialization seg_tpl of None \<Rightarrow> '''' | Some u \<Rightarrow> u);
                       mtpl = unescape (case media seg_tpl of None \<Rightarrow> '''' | Some u \<Rightarrow> u)
                   in case Representation adapt of
                        None \<Rightarrow> Inl AttributeError
                      | Some rep \<Rightarrow>
                          (let rid = (case rep_id rep of None \<Rightarrow> '''' | Some i \<Rightarrow> i)
                           in case SegmentTimeline seg_tpl of
                                None \<Rightarrow> Inl AttributeError
                              | Some ss \<Rightarrow>
                                  (case expand_timeline py_int ss of
                                     Inl e \<Rightarrow> Inl e
                                   | Inr tms \<Rightarrow>
                                       Inr \<lparr>key_url = kurl,
                                            iv = ivb,
                                            init_url = base_url @ py_replace ''$RepresentationID$'' rid init_tpl,
                                            media_tpl = base_url @ py_replace ''$RepresentationID$'' rid mtpl,
                                            segment_times = tms\<rparr>)))))"

section \<open>\<open>_decrypt\<close> (main.py, lines 351-361)\<close>

text \<open>
  The block cipher of the \<open>cryptography\<close> package is the parameter \<open>aes_dec\<close>:
  \<open>aes_dec key c\<close> is the AES decryption of the 16-byte block \<open>c\<close> under \<open>key\<close>.
  Cipher-block chaining is written out: every plaintext block is the decrypted ciphertext
  block XOR the previous ciphertext block, the first one XOR the IV.
\<close>

function cbc_blocks :: "(bytes \<Rightarrow> bytes) \<Rightarrow> bytes \<Rightarrow> bytes \<Rightarrow> bytes" where
  "cbc_blocks dec_block prev data =
     (if data = [] then []
      else map2 (XOR) (dec_block (take 16 data)) prev
             @ cbc_blocks dec_block (take 16 data) (drop 16 data))"
  by pat_completeness auto
termination
  by (relation "measure (\<lambda>(dec_block, prev, data). length data)") auto

declare cbc_blocks.simps [simp del]

text \<open>
  \<open>Cipher(algorithms.AES(key), modes.CBC(iv))\<close>, \<open>dec.update(data) + dec.finalize()\<close>.
  The package raises \<open>ValueError\<close> for a key that is not 16, 24 or 32 bytes long, for an
  IV that is not one block long, and for data that is not a whole number of blocks.
\<close>

definition cbc_decrypt :: "(bytes \<Rightarrow> bytes \<Rightarrow> bytes) \<Rightarrow> bytes \<Rightarrow> bytes \<Rightarrow> bytes \<Rightarrow> exn + bytes" where
  "cbc_decrypt aes_dec data key ivb =
     (if length key \<noteq> 16 \<and> length key \<noteq> 24 \<and> length key \<noteq> 32 then Inl ValueError
      else if length ivb \<noteq> 16 then Inl ValueError
      else if length data mod 16 \<noteq> 0 then Inl ValueError
      else Inr (cbc_blocks (aes_dec key) ivb data))"

text \<open>
  The manual PKCS7 unpadding. \<open>result[-pad:]\<close> is \<open>drop (length result - pad) result\<close>
  and \<open>result[:-pad]\<close> is \<open>take (length result - pad) result\<close> for \<open>pad \<ge> 1\<close>, also
  when \<open>pad\<close> exceeds the length (the subtraction stops at 0, as the slice does).
\<close>

definition unpad :: "bytes \<Rightarrow> bytes" where
  "unpad result =
     (if result \<noteq> [] then
        (let pad = unat (last result) in
         if 1 \<le> pad \<and> pad \<le> 16 \<and> list_all (\<lambda>b. unat b = pad) (drop (length result - pad) result)
         then take (length result - pad) result
         else result)
      else result)"

definition decrypt :: "(bytes \<Rightarrow> bytes \<Rightarrow> bytes) \<Rightarrow> bytes \<Rightarrow> bytes \<Rightarrow> bytes \<Rightarrow> exn + bytes" where
  "decrypt aes_dec data key ivb =
     (case cbc_decrypt aes_dec data key ivb of
        Inl e \<Rightarrow> Inl e
      | Inr result \<Rightarrow> Inr (unpad result))"

text \<open>
  The encryption side of the round trip, in the words of the specification: PKCS7 padding
  appends \<open>p\<close> bytes of value \<open>p\<close>, where \<open>p\<close> in 1..16 fills the last block, and
  CBC encrypts every block XOR the previous ciphertext block (the IV for the first).
  \<open>aes_enc key b\<close> stands for the AES encryption of the block \<open>b\<close> under \<open>key\<close>.
\<close>

definition spec_pkcs7_pad :: "bytes \<Rightarrow> bytes" where
  "spec_pkcs7_pad pt = (let p = 16 - length pt mod 16 in pt @ replicate p (of_nat p))"

function spec_cbc_encrypt_blocks :: "(bytes \<Rightarrow> bytes) \<Rightarrow> bytes \<Rightarrow> bytes \<Rightarrow> bytes" where
  "spec_cbc_encrypt_blocks enc_block prev data =
     (if data = [] then []
      else (let c = enc_block (map2 (XOR) (take 16 data) prev)
            in c @ spec_cbc_encrypt_blocks enc_block c (drop 16 data)))"
  by pat_completeness auto
termination
  by (relation "measure (\<lambda>(enc_block, prev, data). length data)") auto

declare spec_cbc_encrypt_blocks.simps [simp del]

definition spec_encrypt :: "(bytes \<Rightarrow> bytes \<Rightarrow> bytes) \<Rightarrow> bytes \<Rightarrow> bytes \<Rightarrow> bytes \<Rightarrow> bytes" where
  "spec_encrypt aes_enc pt key ivb = spec_cbc_encrypt_blocks (aes_enc key) ivb (spec_pkcs7_pad pt)"

section \<open>The HTTP client and \<open>fetch_segment\<close> (main.py, lines 258-269)\<close>

datatype response = Response (status_code: int) (content: bytes)

text \<open>What a fetch does besides returning: the requests it sends and the seconds it sleeps.\<close>

datatype event = Get string | Sleep nat

text \<open>
  The body of the \<open>try\<close>: \<open>Inl\<close> when \<open>client.get\<close> or \<open>_decrypt\<close> raises,
  \<open>Inr (Some data)\<close> when the \<open>return\<close> is reached, \<open>Inr None\<close> when the status is
  not 200 and control falls out of the \<open>try\<close>.
\<close>

definition try_get :: "(exn + response) \<Rightarrow> (bytes \<Rightarrow> exn + bytes) \<Rightarrow> exn + bytes option" where
  "try_get got dec =
     (case got of
        Inl e \<Rightarrow> Inl e
      | Inr r \<Rightarrow>
          if status_code r = 200
          then (case dec (content r) of Inl e \<Rightarrow> Inl e | Inr data \<Rightarrow> Inr (Some data))
          else Inr None)"


text \<open>
  \<open>for attempt in range(3)\<close>, over the list of the attempts left. \<open>client_get attempt\<close>
  is what the client answers to the request of that attempt. The sleep is in the
  \<open>except\<close> branch only.
\<close>

fun fetch_attempts ::
  "(nat \<Rightarrow> exn + response) \<Rightarrow> (bytes \<Rightarrow> exn + bytes) \<Rightarrow> string \<Rightarrow> nat list \<Rightarrow> bytes option \<times> event list" where
  "fetch_attempts client_get dec seg_url [] = (None, [])"
| "fetch_attempts client_get dec seg_url (attempt # rest) =
     (case try_get (client_get attempt) dec of
        Inr (Some data) \<Rightarrow> (Some data, [Get seg_url])
      | Inr None \<Rightarrow>
          (let (res, evs) = fetch_attempts client_get dec seg_url rest
           in (res, Get seg_url # evs))
      | Inl e \<Rightarrow>
          (let (res, evs) = fetch_attempts client_get dec seg_url rest
           in (res, Get seg_url # (if attempt < 2 then [Sleep 1] else []) @ evs)))"

text \<open>
  Everything outside the program that a download session meets: the library functions
  taken as parameters, the answers of the HTTP client and the exit code of \<open>ffmpeg\<close> on
  the assembled file. \<open>get_seg i url attempt\<close> is the answer to the request number
  \<open>attempt\<close> of the fetch of the \<open>i\<close>-th segment of the timeline; the index only names the
  fetch, so that concurrent fetches, in whatever order they run, are answered independently.
\<close>

record world =
  aes_dec :: "bytes \<Rightarrow> bytes \<Rightarrow> bytes"
  unescape :: "string \<Rightarrow> string"
  py_int :: "string \<Rightarrow> int option"
  get_key :: "string \<Rightarrow> exn + response"
  get_init :: "string \<Rightarrow> exn + response"
  get_seg :: "nat \<Rightarrow> string \<Rightarrow> nat \<Rightarrow> exn + response"
  ffmpeg :: "bytes \<Rightarrow> int"

definition fetch_segment ::
  "world \<Rightarrow> string \<Rightarrow> bytes \<Rightarrow> bytes \<Rightarrow> nat \<Rightarrow> int \<Rightarrow> bytes option \<times> event list" where
  "fetch_segment w mtpl key ivb i seg_time =
     (let seg_url = py_replace ''$Time$'' (py_str seg_time) mtpl
      in fetch_attempts (get_seg w i seg_url) (\<lambda>data. decrypt (aes_dec w) data key ivb) seg_url [0, 1, 2])"

section \<open>Assembly (main.py, lines 272-285)\<close>

text \<open>\<open>for data in results: if data: f.write(data)\<close>: \<open>None\<close> and the empty byte string
  are both false.\<close>

fun write_results :: "bytes \<Rightarrow> bytes option list \<Rightarrow> bytes" where
  "write_results f [] = f"
| "write_results f (data # results) =
     write_results (case data of None \<Rightarrow> f | Some d \<Rightarrow> if d \<noteq> [] then f @ d else f) results"

text \<open>
  \<open>for batch_start in range(0, n_segments, batch_size)\<close> with \<open>batch_size = 30\<close>.
  \<open>asyncio.gather\<close> returns the results in the order of its arguments, whatever the order
  in which the fetches complete, so the results of a batch are the \<open>map\<close> of the fetch
  over \<open>batch_times\<close>. The state is the file written so far and the progress lines
  printed so far, each a pair \<open>(done, n_segments)\<close>.
\<close>

function batch_loop ::
  "world \<Rightarrow> string \<Rightarrow> bytes \<Rightarrow> bytes \<Rightarrow> int list \<Rightarrow> nat \<Rightarrow> bytes \<times> (nat \<times> nat) list
     \<Rightarrow> bytes \<times> (nat \<times> nat) list" where
  "batch_loop w mtpl key ivb tms batch_start (f, progress) =
     (let n_segments = length tms in
      if batch_start < n_segments then
        (let batch_times = take 30 (drop batch_start tms);
             results = map (\<lambda>(j, t). fst (fetch_segment w mtpl key ivb (batch_start + j) t))
                           (enumerate 0 batch_times);
             ndone = min (batch_start + 30) n_segments
         in batch_loop w mtpl key ivb tms (batch_start + 30)
              (write_results f results, progress @ [(ndone, n_segments)]))
      else (f, progress))"
  by pat_completeness auto
termination
  by (relation "measure (\<lambda>(w, mtpl, key, ivb, tms, batch_start, st). length tms - batch_start)") auto

declare batch_loop.simps [simp del]

section \<open>\<open>_download_dash_audio\<close> (main.py, lines 198-313)\<close>

text \<open>
  The track selection loop (lines 206-216). \<open>_parse_adaptation_set\<close> is called for every
  audio set, also for one that is not kept, so its exception ends the loop. A set without a
  \<open>Label\<close> element has the label \<open>"audio"\<close>; the text of an empty \<open>Label\<close> element is
  \<open>None\<close>. \<open>not audio_track\<close> holds exactly when no candidate was kept yet: the
  dictionary of a track is never empty.
\<close>

definition label_of :: "adaptation_set \<Rightarrow> string option" where
  "label_of adapt = (case Label adapt of None \<Rightarrow> Some ''audio'' | Some txt \<Rightarrow> txt)"

text \<open>The two tests of the loop: \<open>adapt.get("contentType") == "audio"\<close>, and an audio
  set whose label is \<open>"OriginalAudio"\<close>.\<close>

definition is_audio :: "adaptation_set \<Rightarrow> bool" where
  "is_audio adapt = (contentType adapt = Some ''audio'')"

definition is_original :: "adaptation_set \<Rightarrow> bool" where
  "is_original adapt = (is_audio adapt \<and> label_of adapt = Some ''OriginalAudio'')"

fun select_loop ::
  "(string \<Rightarrow> string) \<Rightarrow> (string \<Rightarrow> int option) \<Rightarrow> string \<Rightarrow> adaptation_set list
     \<Rightarrow> audio_track option \<Rightarrow> exn + audio_track option" where
  "select_loop unesc pint base_url [] cur = Inr cur"
| "select_loop unesc pint base_url (adapt # rest) cur =
     (if contentType adapt \<noteq> Some ''audio'' then select_loop unesc pint base_url rest cur
      else
        (let lbl = label_of adapt
         in case parse_adaptation_set unesc pint adapt base_url of
              Inl e \<Rightarrow> Inl e
            | Inr trk \<Rightarrow>
                if cur = None \<or> lbl = Some ''OriginalAudio''
                then select_loop unesc pint base_url rest (Some (track.extend trk (audio_track.fields lbl)))
                else select_loop unesc pint base_url rest cur))"

text \<open>
  How a session ends without a result: an exception that escapes (\<open>Raised\<close>), or one of
  the places where the function prints an error and returns \<open>False\<close>.
\<close>

datatype failure = Raised exn | NoAudioTrack | KeyFetchError | InitFetchError | FfmpegError

text \<open>What a session that returns \<open>True\<close> has produced: the assembled file handed to
  \<open>ffmpeg\<close> and the progress lines printed.\<close>

record session =
  buffer :: bytes
  progress :: "(nat \<times> nat) list"

definition download_dash_audio :: "world \<Rightarrow> manifest \<Rightarrow> failure + session" where
  "download_dash_audio w m =
     (case Period m of
        None \<Rightarrow> Inl (Raised AttributeError)
      | Some adapts \<Rightarrow>
          (case select_loop (unescape w) (py_int w) (BaseURL m) adapts None of
             Inl e \<Rightarrow> Inl (Raised e)
           | Inr None \<Rightarrow> Inl NoAudioTrack
           | Inr (Some trk) \<Rightarrow>
               (case get_key w (key_url trk) of
                  Inl e \<Rightarrow> Inl KeyFetchError
                | Inr key_resp \<Rightarrow>
                    if status_code key_resp \<noteq> 200 then Inl KeyFetchError
                    else
                      (let key = content key_resp; ivb = iv trk
                       in case get_init w (init_url trk) of
                            Inl e \<Rightarrow> Inl (Raised e)
                          | Inr init_resp \<Rightarrow>
                              if status_code init_resp \<noteq> 200 then Inl InitFetchError
                              else
                                (case decrypt (aes_dec w) (content init_resp) key ivb of
                                   Inl e \<Rightarrow> Inl (Raised e)
                                 | Inr init_data \<Rightarrow>
                                     (let (f, prog) =
                                            batch_loop w (media_tpl trk) key ivb (segment_times trk) 0
                                              (init_data, [])
                                      in if ffmpeg w f \<noteq> 0 then Inl FfmpegError
                                         else Inr \<lparr>buffer = f, progress = prog\<rparr>))))))"


text \<open>A session is assembled when it wrote the whole file and handed it to \<open>ffmpeg\<close>:
  it ended with a result, or with the failure of \<open>ffmpeg\<close> itself.\<close>

definition assembled :: "failure + session \<Rightarrow> bool" where
  "assembled r = (case r of Inr s \<Rightarrow> True | Inl FfmpegError \<Rightarrow> True | Inl e \<Rightarrow> False)"

section \<open>Concrete inputs for the examples\<close>

text \<open>
  A stand-in for \<open>int()\<close> on plain decimal literals (an optional minus sign and ASCII
  digits), where an example needs a concrete \<open>py_int\<close>.
\<close>

definition digit_val :: "char \<Rightarrow> nat option" where
  "digit_val c = (let n = (of_char c :: nat) in if 48 \<le> n \<and> n \<le> 57 then Some (n - 48) else None)"

fun decimal_nat :: "nat \<Rightarrow> string \<Rightarrow> nat option" where
  "decimal_nat acc [] = Some acc"
| "decimal_nat acc (c # cs) =
     (case digit_val c of None \<Rightarrow> None | Some v \<Rightarrow> decimal_nat (acc * 10 + v) cs)"

definition decimal_int :: "string \<Rightarrow> int option" where
  "decimal_int s =
     (case s of
        [] \<Rightarrow> None
      | c # cs \<Rightarrow>
          if c = CHR ''-'' then (if cs = [] then None else map_option (\<lambda>n. - int n) (decimal_nat 0 cs))
          else map_option int (decimal_nat 0 s))"

text \<open>The timeline elements \<open><S d="4" r="2"/>\<close>, \<open><S d="0" r="1"/>\<close> and
  \<open><S d="4" r="-2"/>\<close>.\<close>

definition S_4_2 :: s_elem where
  "S_4_2 = \<lparr>s_d = Some ''4'', s_r = Some ''2''\<rparr>"

definition S_0_1 :: s_elem where
  "S_0_1 = \<lparr>s_d = Some ''0'', s_r = Some ''1''\<rparr>"

definition S_4_neg :: s_elem where
  "S_4_neg = \<lparr>s_d = Some ''4'', s_r = Some ''-2''\<rparr>"

text \<open>
  A stand-in block cipher for the examples (XOR with the key, its own inverse), a 16-byte
  key, the zero IV, and two ciphertext blocks: one whose decryption does not end in
  padding and one whose decryption ends in five bytes of value 5.
\<close>

definition toy_block :: "bytes \<Rightarrow> bytes \<Rightarrow> bytes" where
  "toy_block key c = map2 (XOR) c key"

definition key0 :: bytes where
  "key0 = [1, 2, 3, 4, 5, 6, 7, 8, 9, 10, 11, 12, 13, 14, 15, 16]"

definition iv0 :: bytes where
  "iv0 = replicate 16 0"

definition unpadded_block :: bytes where
  "unpadded_block = replicate 16 65"

definition padded_block :: bytes where
  "padded_block = [1, 3, 3, 5, 5, 5, 5, 5, 12, 15, 14, 9, 8, 11, 10, 21]"

text \<open>
  A world for the examples: the stand-in cipher, no HTML entities, decimal integers, a
  server that answers every request with status 200, and an \<open>ffmpeg\<close> that succeeds.
  Two other segment servers: one that always answers 404, and one whose first answer is
  a transport error, whose second is a 404 and whose third is a 200.
\<close>

definition world0 :: world where
  "world0 = \<lparr>aes_dec = toy_block, unescape = (\<lambda>s. s), py_int = decimal_int,
              get_key = (\<lambda>url. Inr (Response 200 key0)),
              get_init = (\<lambda>url. Inr (Response 200 padded_block)),
              get_seg = (\<lambda>i url attempt. Inr (Response 200 unpadded_block)),
              ffmpeg = (\<lambda>f. 0)\<rparr>"





text \<open>
  A manifest with one audio set (no \<open>Label\<close>, an encryption descriptor without an
  \<open>IV\<close> attribute, the timeline \<open>d=4, r=2\<close>), and a world whose server has the
  segments at times 0 and 8 but answers 404 for the one at time 4.
\<close>

definition adapt_audio :: adaptation_set where
  "adapt_audio =
     \<lparr>contentType = Some ''audio'', Label = None,
      ContentProtection = Some \<lparr>CryptoPeriod = Some \<lparr>keyUriTemplate = Some ''https://host/key'', IV = None\<rparr>\<rparr>,
      SegmentTemplate = Some \<lparr>initialization = Some ''init-$RepresentationID$.mp4'',
                               media = Some ''seg-$RepresentationID$-$Time$.m4s'',
                               SegmentTimeline = Some [S_4_2]\<rparr>,
      Representation = Some \<lparr>rep_id = Some ''a1''\<rparr>\<rparr>"

definition manifest0 :: manifest where
  "manifest0 = \<lparr>BaseURL = ''https://host/'', Period = Some [adapt_audio]\<rparr>"

definition second_missing :: "nat \<Rightarrow> string \<Rightarrow> nat \<Rightarrow> exn + response" where
  "second_missing i url attempt =
     (if url = ''https://host/seg-a1-0.m4s'' then Inr (Response 200 unpadded_block)
      else if url = ''https://host/seg-a1-8.m4s'' then Inr (Response 200 padded_block)
      else Inr (Response 404 []))"

definition world_gap :: world where
  "world_gap = world0\<lparr>get_seg := second_missing\<rparr>"

text \<open>
  More adaptation sets: two audio sets labelled \<open>OriginalAudio\<close> with different
  representations, and a video set; and a manifest with the generic audio set before a
  labelled one.
\<close>

definition adapt_original_1 :: adaptation_set where
  "adapt_original_1 =
     adapt_audio\<lparr>Label := Some (Some ''OriginalAudio''), Representation := Some \<lparr>rep_id = Some ''o1''\<rparr>\<rparr>"

definition adapt_original_2 :: adaptation_set where
  "adapt_original_2 =
     adapt_audio\<lparr>Label := Some (Some ''OriginalAudio''), Representation := Some \<lparr>rep_id = Some ''o2''\<rparr>\<rparr>"

definition adapt_video :: adaptation_set where
  "adapt_video = adapt_audio\<lparr>contentType := Some ''video''\<rparr>"

definition manifest_generic_first :: manifest where
  "manifest_generic_first = \<lparr>BaseURL = ''https://host/'', Period = Some [adapt_audio, adapt_original_1]\<rparr>"

text \<open>
  The audio set without its \<open>ContentProtection\<close> element, with the two-byte
  \<open>IV="0x0102"\<close>, and with an \<open>IV\<close> attribute of 32 hexadecimal digits.
\<close>

definition adapt_clear :: adaptation_set where
  "adapt_clear = adapt_audio\<lparr>ContentProtection := None\<rparr>"

definition adapt_short_iv :: adaptation_set where
  "adapt_short_iv =
     adapt_audio\<lparr>ContentProtection :=
       Some \<lparr>CryptoPeriod = Some \<lparr>keyUriTemplate = Some ''https://host/key'', IV = Some ''0x0102''\<rparr>\<rparr>\<rparr>"

definition adapt_long_iv :: adaptation_set where
  "adapt_long_iv =
     adapt_audio\<lparr>ContentProtection :=
       Some \<lparr>CryptoPeriod = Some \<lparr>keyUriTemplate = Some ''https://host/key'',
                                  IV = Some ''0x000102030405060708090a0B0c0D0e0F''\<rparr>\<rparr>\<rparr>"



section \<open>The segment timeline is the running clock\<close>

lemma emit_ticks: "emit n d (tms, t) = (tms @ spec_ticks n d t, t + int n * d)"
  by (induction n arbitrary: tms t) (simp_all add: algebra_simps)

lemma timeline_loop_clock:
  assumes "map (read_S pint) ss = map Inr es"
  shows "\<exists>t'. timeline_loop pint ss (tms, t) = Inr (tms @ spec_clock t es, t')"
  using assms
proof (induction ss arbitrary: es tms t)
  case Nil
  then show ?case by simp
next
  case (Cons s ss)
  then obtain d r es' where es: "es = (d, r) # es'" and rd: "read_S pint s = Inr (d, r)"
    and rest: "map (read_S pint) ss = map Inr es'"
    by (cases es) auto
  from Cons.IH [OF rest, of "tms @ spec_ticks (nat (r + 1)) d t" "t + int (nat (r + 1)) * d"]
  show ?case using rd es by (simp add: emit_ticks)
qed

lemma expand_timeline_clock:
  assumes "map (read_S pint) ss = map Inr es"
  shows "expand_timeline pint ss = Inr (spec_clock 0 es)"
  using timeline_loop_clock [OF assms, of "[]" 0] by (auto simp: expand_timeline_def)

lemma spec_ticks_lower: "0 \<le> d \<Longrightarrow> x \<in> set (spec_ticks n d t) \<Longrightarrow> t \<le> x"
  by (induction n arbitrary: t) force+

lemma spec_ticks_upper: "0 < d \<Longrightarrow> x \<in> set (spec_ticks n d t) \<Longrightarrow> x < t + int n * d"
proof (induction n arbitrary: t)
  case (Suc n)
  from Suc.prems(2) consider "x = t" | "x \<in> set (spec_ticks n d (t + d))" by auto
  then show ?case
  proof cases
    case 1
    have "0 < int (Suc n) * d" using Suc.prems(1) by simp
    then show ?thesis using 1 by linarith
  next
    case 2
    from Suc.IH [OF Suc.prems(1) 2] show ?thesis by (simp add: algebra_simps)
  qed
qed simp

lemma spec_ticks_strict: "0 < d \<Longrightarrow> sorted_wrt (<) (spec_ticks n d t)"
proof (induction n arbitrary: t)
  case (Suc n)
  then show ?case using spec_ticks_lower [of d _ n "t + d"] by force
qed simp

lemma spec_clock_lower:
  "\<forall>(d, r) \<in> set es. 0 < d \<Longrightarrow> x \<in> set (spec_clock t es) \<Longrightarrow> t \<le> x"
proof (induction es arbitrary: t)
  case (Cons e es)
  obtain d r where e: "e = (d, r)" by (cases e)
  with Cons.prems have d: "0 < d" and all: "\<forall>(d, r) \<in> set es. 0 < d"
    by auto
  from Cons.prems(2) e consider "x \<in> set (spec_ticks (nat (r + 1)) d t)"
    | "x \<in> set (spec_clock (t + int (nat (r + 1)) * d) es)" by auto
  then show ?case
  proof cases
    case 1
    then show ?thesis using spec_ticks_lower [of d x] d by simp
  next
    case 2
    from Cons.IH [OF all 2] have "t + int (nat (r + 1)) * d \<le> x" .
    moreover have "0 \<le> int (nat (r + 1)) * d" using d by simp
    ultimately show ?thesis by linarith
  qed
qed simp

lemma spec_clock_strict:
  "\<forall>(d, r) \<in> set es. 0 < d \<Longrightarrow> sorted_wrt (<) (spec_clock t es)"
proof (induction es arbitrary: t)
  case (Cons e es)
  obtain d r where e: "e = (d, r)" by (cases e)
  with Cons.prems have d: "0 < d" and all: "\<forall>(d, r) \<in> set es. 0 < d"
    by auto
  have cross: "x < y" if "x \<in> set (spec_ticks (nat (r + 1)) d t)"
    and "y \<in> set (spec_clock (t + int (nat (r + 1)) * d) es)" for x y
  proof -
    from spec_ticks_upper [OF d that(1)] have "x < t + int (nat (r + 1)) * d" by simp
    moreover from spec_clock_lower [OF all that(2)] have "t + int (nat (r + 1)) * d \<le> y" .
    ultimately show ?thesis by linarith
  qed
  show ?case using e Cons.IH [OF all] spec_ticks_strict [OF d] cross
    by (auto simp: sorted_wrt_append)
qed simp

lemma length_spec_ticks: "length (spec_ticks n d t) = n"
  by (induction n arbitrary: t) simp_all

lemma length_spec_clock:
  "length (spec_clock t es) = (\<Sum>(d, r)\<leftarrow>es. nat (r + 1))"
  by (induction es arbitrary: t) (auto simp: length_spec_ticks)

lemma sum_nat_repeat:
  "\<forall>(d, r) \<in> set es. 0 \<le> r \<Longrightarrow> int (\<Sum>(d, r)\<leftarrow>es. nat (r + 1)) = (\<Sum>(d, r)\<leftarrow>es. r + 1)"
  by (induction es) auto

lemma spec_clock_starts:
  "\<forall>(d, r) \<in> set es. 0 \<le> r \<Longrightarrow> es \<noteq> [] \<Longrightarrow> \<exists>rest. spec_clock t es = t # rest"
proof (cases es)
  case (Cons e es')
  assume a: "\<forall>(d, r) \<in> set es. 0 \<le> r"
  obtain d r where e: "e = (d, r)" by (cases e)
  with a Cons have "0 \<le> r" by auto
  then obtain k where "nat (r + 1) = Suc k" by (cases "nat (r + 1)") auto
  then show ?thesis using Cons e by simp
qed simp

lemma spec_ticks_zero: "spec_ticks n 0 t = replicate n t"
  by (induction n) simp_all

text \<open>
  Claim C2. Let the \<open>S\<close> elements of a timeline read as the entries \<open>es\<close>, every one
  with a duration \<open>d > 0\<close> and a repeat count \<open>r \<ge> 0\<close>. Then the expansion succeeds, and
  the timestamps are those of the running clock of the specification (emit, then advance by
  the entry's \<open>d\<close>, entry after entry in document order); the sequence begins with 0 (there
  is a first timestamp as soon as there is an entry), it is non-decreasing, and its length
  is the sum of \<open>r + 1\<close> over the entries.
\<close>

theorem timeline_expansion:
  assumes "map (read_S pint) ss = map Inr es"
      and "\<forall>(d, r) \<in> set es. 0 < d \<and> 0 \<le> r"
  shows "\<exists>tms. expand_timeline pint ss = Inr tms \<and> tms = spec_clock 0 es
           \<and> (es \<noteq> [] \<longrightarrow> (\<exists>rest. tms = 0 # rest))
           \<and> sorted tms
           \<and> int (length tms) = (\<Sum>(d, r)\<leftarrow>es. r + 1)"
proof -
  from assms(2) have d0: "\<forall>(d, r) \<in> set es. 0 < d" and r0: "\<forall>(d, r) \<in> set es. 0 \<le> r"
    by auto
  have "sorted (spec_clock 0 es)"
    using spec_clock_strict [OF d0, of 0] by (simp add: strict_sorted_imp_sorted)
  then show ?thesis
    using expand_timeline_clock [OF assms(1)] spec_clock_starts [OF r0, of 0]
      length_spec_clock [of 0 es] sum_nat_repeat [OF r0] by auto
qed

theorem timeline_expansion_witness:
  "map (read_S decimal_int) [S_4_2] = map Inr [(4, 2)]
   \<and> expand_timeline decimal_int [S_4_2] = Inr [0, 4, 8]"
proof -
  have h1: "map (read_S decimal_int) [S_4_2] = map Inr [(4, 2)]"
    by (simp add: read_S_def S_4_2_def decimal_int_def digit_val_def)
  have h2: "\<forall>(d, r) \<in> set [(4 :: int, 2 :: int)]. 0 < d \<and> 0 \<le> r" by simp
  have e: "spec_clock 0 [(4, 2)] = [0, 4, 8]" by code_simp
  from timeline_expansion [OF h1 h2] e h1 show ?thesis by auto
qed

text \<open>
  Claim C9, as stated, fails: the loop validates nothing. A timeline with a zero duration
  and a negative repeat count expands to a timestamp sequence; no error is raised.
\<close>

theorem timeline_unvalidated_counterexample:
  "expand_timeline decimal_int [S_0_1, S_4_neg, S_4_2] = Inr [0, 0, 0, 4, 8]"
  by (simp add: expand_timeline_def read_S_def S_0_1_def S_4_neg_def S_4_2_def decimal_int_def
      digit_val_def numeral_eq_Suc)

text \<open>
  Claim C9, amended. Whenever the \<open>d\<close> and \<open>r\<close> attributes of the \<open>S\<close> elements read as
  integers, whatever their signs, the expansion succeeds with the running-clock sequence,
  of length the sum of \<open>max 0 (r + 1)\<close>: an entry with a negative repeat count emits
  nothing and leaves the clock where it is, and an entry with duration zero emits
  \<open>r + 1\<close> copies of the current clock value.
\<close>

theorem timeline_unvalidated:
  assumes "map (read_S pint) ss = map Inr es"
  shows "expand_timeline pint ss = Inr (spec_clock 0 es)
         \<and> length (spec_clock 0 es) = (\<Sum>(d, r)\<leftarrow>es. nat (r + 1))
         \<and> (\<forall>t d r rest. r < 0 \<longrightarrow> spec_clock t ((d, r) # rest) = spec_clock t rest)
         \<and> (\<forall>t r rest. spec_clock t ((0, r) # rest) = replicate (nat (r + 1)) t @ spec_clock t rest)"
  using expand_timeline_clock [OF assms] length_spec_clock [of 0 es]
  by (simp add: spec_ticks_zero)

theorem timeline_unvalidated_witness:
  "map (read_S decimal_int) [S_0_1, S_4_neg] = map Inr [(0, 1), (4, -2)]
   \<and> expand_timeline decimal_int [S_0_1, S_4_neg] = Inr [0, 0]"
proof -
  have h: "map (read_S decimal_int) [S_0_1, S_4_neg] = map Inr [(0, 1), (4, -2)]"
    by (simp add: read_S_def S_0_1_def S_4_neg_def decimal_int_def digit_val_def)
  have e: "spec_clock 0 [(0, 1), (4, -2)] = [0, 0]" by code_simp
  from timeline_unvalidated [OF h] e h show ?thesis by simp
qed

section \<open>\<open>_decrypt\<close>: the padding check and the round trip\<close>

lemma cbc_blocks_Nil: "cbc_blocks dk prev [] = []"
  by (simp add: cbc_blocks.simps)

lemma cbc_blocks_step:
  "data \<noteq> [] \<Longrightarrow> cbc_blocks dk prev data =
     map2 (XOR) (dk (take 16 data)) prev @ cbc_blocks dk (take 16 data) (drop 16 data)"
  by (subst cbc_blocks.simps) simp

lemma mod16_drop: "length (data :: 'a list) mod 16 = 0 \<Longrightarrow> data \<noteq> [] \<Longrightarrow>
    16 \<le> length data \<and> length (drop 16 data) mod 16 = 0"
proof -
  assume a: "length data mod 16 = 0" and b: "data \<noteq> []"
  then have "16 \<le> length data" by (cases "length data < 16") auto
  moreover then have "(length data - 16) mod 16 = 0" using a by (simp add: le_mod_geq)
  ultimately show ?thesis by simp
qed

lemma length_cbc_blocks:
  "\<forall>c. length c = 16 \<longrightarrow> length (dk c) = 16 \<Longrightarrow> length prev = 16 \<Longrightarrow> length data mod 16 = 0
     \<Longrightarrow> length (cbc_blocks dk prev data) = length data"
proof (induction dk prev data rule: cbc_blocks.induct)
  case (1 dk prev data)
  show ?case
  proof (cases "data = []")
    case True
    then show ?thesis by (simp add: cbc_blocks_Nil)
  next
    case False
    from mod16_drop [OF "1.prems"(3) False]
    have len: "16 \<le> length data" and m: "length (drop 16 data) mod 16 = 0" by simp_all
    from len have t: "length (take 16 data) = 16" by simp
    with "1.prems"(1) have d: "length (dk (take 16 data)) = 16" by simp
    from "1.IH" [OF False "1.prems"(1) t m]
    have "length (cbc_blocks dk (take 16 data) (drop 16 data)) = length data - 16" by simp
    then show ?thesis using d "1.prems"(2) len by (simp add: cbc_blocks_step [OF False])
  qed
qed

lemma cbc_decrypt_length:
  assumes "\<forall>c. length c = 16 \<longrightarrow> length (adec key c) = 16"
      and "cbc_decrypt adec data key ivb = Inr r"
  shows "length r mod 16 = 0"
  using assms length_cbc_blocks [of "adec key" ivb data]
  by (auto simp: cbc_decrypt_def split: if_splits)

lemma list_all_eq_replicate:
  "list_all (\<lambda>b. unat b = unat (x :: byte)) xs \<longleftrightarrow> xs = replicate (length xs) x"
  by (induction xs) (auto simp: word_unat_eq_iff)

text \<open>
  Claim C3. Let the block cipher map 16-byte blocks to 16-byte blocks, and let the CBC
  decryption of the ciphertext succeed with the byte string \<open>r\<close>. An empty \<open>r\<close> is
  returned as it is. Otherwise let \<open>p\<close> be the last byte of \<open>r\<close>: when \<open>p\<close> is not in
  1..16, or the last \<open>p\<close> bytes of \<open>r\<close> are not all \<open>p\<close>, \<open>_decrypt\<close> returns \<open>r\<close>
  itself (a value, not an exception; nothing is cut); when the check passes, it returns
  \<open>r\<close> without its last \<open>p\<close> bytes, and exactly those.
\<close>

theorem decrypt_padding_policy:
  assumes "\<forall>c. length c = 16 \<longrightarrow> length (adec key c) = 16"
      and "cbc_decrypt adec data key ivb = Inr r"
  shows "(r = [] \<longrightarrow> decrypt adec data key ivb = Inr [])
       \<and> (r \<noteq> [] \<longrightarrow>
            (let p = unat (last r) in
               (p < 1 \<or> 16 < p \<or> drop (length r - p) r \<noteq> replicate p (last r)
                  \<longrightarrow> decrypt adec data key ivb = Inr r)
             \<and> (1 \<le> p \<and> p \<le> 16 \<and> drop (length r - p) r = replicate p (last r)
                  \<longrightarrow> p \<le> length r
                      \<and> decrypt adec data key ivb = Inr (take (length r - p) r)
                      \<and> take (length r - p) r @ replicate p (last r) = r)))"
proof -
  have m: "length r mod 16 = 0" by (rule cbc_decrypt_length [OF assms])
  have d: "decrypt adec data key ivb = Inr (unpad r)" using assms(2) by (simp add: decrypt_def)
  show ?thesis
  proof (cases "r = []")
    case True
    then show ?thesis using d by (simp add: unpad_def)
  next
    case False
    define p where "p = unat (last r)"
    from m False have len: "16 \<le> length r" by (cases "length r < 16") auto
    have eqv: "list_all (\<lambda>b. unat b = p) (drop (length r - p) r)
                 \<longleftrightarrow> drop (length r - p) r = replicate p (last r)" if "p \<le> 16"
    proof -
      from that len have "length (drop (length r - p) r) = p" by simp
      then show ?thesis using list_all_eq_replicate [of "last r" "drop (length r - p) r"]
        by (simp add: p_def)
    qed
    have u: "unpad r = (if 1 \<le> p \<and> p \<le> 16 \<and> drop (length r - p) r = replicate p (last r)
                        then take (length r - p) r else r)"
      using False eqv by (auto simp: unpad_def p_def Let_def)
    have app: "take (length r - p) r @ replicate p (last r) = r"
      if "drop (length r - p) r = replicate p (last r)"
      using append_take_drop_id [of "length r - p" r] that by simp
    show ?thesis using False d u len app by (auto simp: Let_def p_def [symmetric])
  qed
qed

lemma toy_block_length:
  "length key = 16 \<Longrightarrow> \<forall>c. length c = 16 \<longrightarrow> length (toy_block key c) = 16"
  by (simp add: toy_block_def)

theorem decrypt_padding_policy_witness:
  "decrypt toy_block unpadded_block key0 iv0
     = Inr [64, 67, 66, 69, 68, 71, 70, 73, 72, 75, 74, 77, 76, 79, 78, 81]
   \<and> decrypt toy_block padded_block key0 iv0 = Inr [0, 1, 0, 1, 0, 3, 2, 13, 5, 5, 5]"
proof -
  have k: "length key0 = 16" by (simp add: key0_def)
  have c1: "cbc_decrypt toy_block unpadded_block key0 iv0
              = Inr [64, 67, 66, 69, 68, 71, 70, 73, 72, 75, 74, 77, 76, 79, 78, 81]"
    by code_simp
  have c2: "cbc_decrypt toy_block padded_block key0 iv0
              = Inr [0, 1, 0, 1, 0, 3, 2, 13, 5, 5, 5, 5, 5, 5, 5, 5]"
    by code_simp
  from decrypt_padding_policy [OF toy_block_length [OF k] c1]
  have "decrypt toy_block unpadded_block key0 iv0
          = Inr [64, 67, 66, 69, 68, 71, 70, 73, 72, 75, 74, 77, 76, 79, 78, 81]"
    by (simp add: Let_def)
  moreover have r5: "replicate 5 (5 :: byte) = [5, 5, 5, 5, 5]" by code_simp
  from decrypt_padding_policy [OF toy_block_length [OF k] c2]
  have "decrypt toy_block padded_block key0 iv0 = Inr [0, 1, 0, 1, 0, 3, 2, 13, 5, 5, 5]"
    by (simp add: Let_def r5)
  ultimately show ?thesis by simp
qed

lemma xor_cancel: "length a = length b \<Longrightarrow> map2 (XOR) (map2 (XOR) a b) b = (a :: bytes)"
  by (induction a b rule: list_induct2) (simp_all add: xor.assoc)

lemma spec_cbc_encrypt_blocks_Nil: "spec_cbc_encrypt_blocks ek prev [] = []"
  by (simp add: spec_cbc_encrypt_blocks.simps)

lemma spec_cbc_encrypt_blocks_step:
  "data \<noteq> [] \<Longrightarrow> spec_cbc_encrypt_blocks ek prev data =
     ek (map2 (XOR) (take 16 data) prev)
       @ spec_cbc_encrypt_blocks ek (ek (map2 (XOR) (take 16 data) prev)) (drop 16 data)"
  by (subst spec_cbc_encrypt_blocks.simps) (simp add: Let_def)

lemma cbc_roundtrip:
  "\<forall>b. length b = 16 \<longrightarrow> length (ek b) = 16 \<and> dk (ek b) = b \<Longrightarrow> length prev = 16
     \<Longrightarrow> length data mod 16 = 0
     \<Longrightarrow> length (spec_cbc_encrypt_blocks ek prev data) = length data
         \<and> cbc_blocks dk prev (spec_cbc_encrypt_blocks ek prev data) = data"
proof (induction ek prev data rule: spec_cbc_encrypt_blocks.induct)
  case (1 ek prev data)
  show ?case
  proof (cases "data = []")
    case True
    then show ?thesis by (simp add: spec_cbc_encrypt_blocks_Nil cbc_blocks_Nil)
  next
    case False
    define x where "x = map2 (XOR) (take 16 data) prev"
    define c where "c = ek x"
    define rest where "rest = spec_cbc_encrypt_blocks ek c (drop 16 data)"
    from mod16_drop [OF "1.prems"(3) False]
    have len: "16 \<le> length data" and m: "length (drop 16 data) mod 16 = 0" by simp_all
    from len "1.prems"(2) have lx: "length x = 16" by (simp add: x_def)
    with "1.prems"(1) have lc: "length c = 16" and dc: "dk c = x" by (simp_all add: c_def)
    from "1.IH" [OF False refl "1.prems"(1) _ m] lc
    have ih: "length rest = length data - 16" "cbc_blocks dk c rest = drop 16 data"
      by (simp_all add: rest_def c_def x_def)
    have e: "spec_cbc_encrypt_blocks ek prev data = c @ rest"
      by (simp add: spec_cbc_encrypt_blocks_step [OF False] rest_def c_def x_def)
    have ne: "c @ rest \<noteq> []" using lc by auto
    have xb: "map2 (XOR) x prev = take 16 data"
      unfolding x_def using len "1.prems"(2) by (intro xor_cancel) simp
    have "cbc_blocks dk prev (c @ rest) = take 16 data @ drop 16 data"
      using lc dc ih(2) xb by (simp add: cbc_blocks_step [OF ne])
    then show ?thesis using e lc ih(1) len by simp
  qed
qed

lemma pad_count: "1 \<le> 16 - (n :: nat) mod 16 \<and> 16 - n mod 16 \<le> 16"
  using mod_less_divisor [of 16 n] by simp

lemma length_pad_mod: "length (spec_pkcs7_pad pt) mod 16 = 0"
proof -
  have "(length pt + (16 - length pt mod 16)) mod 16 = 0"
    by presburger
  then show ?thesis by (simp add: spec_pkcs7_pad_def Let_def)
qed

lemma unpad_pad: "unpad (spec_pkcs7_pad pt) = pt"
proof -
  define p where "p = 16 - length pt mod 16"
  have p: "1 \<le> p" "p \<le> 16" using pad_count [of "length pt"] by (simp_all add: p_def)
  then have u: "unat (of_nat p :: byte) = p" by (simp add: unat_of_nat)
  have r: "spec_pkcs7_pad pt = pt @ replicate p (of_nat p)"
    by (simp add: spec_pkcs7_pad_def p_def Let_def)
  have l: "last (pt @ replicate p (of_nat p :: byte)) = of_nat p" using p by (cases p) auto
  show ?thesis unfolding r using p u l
    by (simp add: unpad_def Let_def list_all_iff)
qed

text \<open>
  Claim C6. For a 16-byte key and a 16-byte IV, and a block cipher whose decryption undoes
  its encryption on 16-byte blocks, PKCS7-padding a plaintext, encrypting it in CBC mode and
  giving the ciphertext to \<open>_decrypt\<close> with the same key and IV returns the plaintext.
\<close>

theorem decrypt_roundtrip:
  assumes "length key = 16" and "length ivb = 16"
      and "\<forall>b. length b = 16 \<longrightarrow> length (aenc key b) = 16 \<and> adec key (aenc key b) = b"
  shows "decrypt adec (spec_encrypt aenc pt key ivb) key ivb = Inr pt"
proof -
  from cbc_roundtrip [OF assms(3) assms(2) length_pad_mod, of pt]
  have "length (spec_encrypt aenc pt key ivb) mod 16 = 0"
    and "cbc_blocks (adec key) ivb (spec_encrypt aenc pt key ivb) = spec_pkcs7_pad pt"
    by (simp_all add: spec_encrypt_def length_pad_mod)
  then have "cbc_decrypt adec (spec_encrypt aenc pt key ivb) key ivb = Inr (spec_pkcs7_pad pt)"
    using assms(1,2) by (simp add: cbc_decrypt_def)
  then show ?thesis by (simp add: decrypt_def unpad_pad)
qed

lemma toy_block_ok:
  "length key = 16 \<Longrightarrow>
   \<forall>b. length b = 16 \<longrightarrow> length (toy_block key b) = 16 \<and> toy_block key (toy_block key b) = b"
  by (simp add: toy_block_def xor_cancel)

theorem decrypt_roundtrip_witness:
  "decrypt toy_block (spec_encrypt toy_block [72, 105] key0 iv0) key0 iv0 = Inr [72, 105]"
proof -
  have k: "length key0 = 16" by (simp add: key0_def)
  have i: "length iv0 = 16" by (simp add: iv0_def)
  from decrypt_roundtrip [of key0 iv0 toy_block toy_block, OF k i toy_block_ok [OF k]] show ?thesis .
qed

section \<open>\<open>fetch_segment\<close>: three attempts\<close>


lemma assembled_simps [simp]:
  "assembled (Inr s)" "assembled (Inl FfmpegError)" "\<not> assembled (Inl (Raised e))"
  "\<not> assembled (Inl NoAudioTrack)" "\<not> assembled (Inl KeyFetchError)"
  "\<not> assembled (Inl InitFetchError)"
  by (simp_all add: assembled_def)






section \<open>Assembly in timeline order\<close>

lemma write_results_concat:
  "write_results f rs = f @ concat (map (\<lambda>r. case r of None \<Rightarrow> [] | Some d \<Rightarrow> d) rs)"
  by (induction rs arbitrary: f) (auto split: option.splits)

lemma batch_results:
  "map (\<lambda>(j, t). F (bs + j) t) (enumerate 0 (take 30 (drop bs tms)))
     = map (\<lambda>k. F k (tms ! k)) [bs..<min (bs + 30) (length tms)]"
  by (rule nth_equalityI) (auto simp: nth_enumerate_eq)

lemma upt_batches:
  "bs < n \<Longrightarrow> [bs..<n] = [bs..<min (bs + 30) n] @ [bs + 30..<n]"
proof (cases "bs + 30 \<le> n")
  case True
  then have "[bs..<bs + (n - bs)] = [bs..<bs + 30] @ [bs + 30..<bs + 30 + (n - bs - 30)]"
    using upt_add_eq_append [of bs "bs + 30" "n - bs - 30"] by simp
  then show ?thesis using True by (simp add: min_def)
next
  case False
  then show ?thesis by (simp add: min_def)
qed

lemma batch_loop_concat:
  "fst (batch_loop w mtpl key ivb tms bs (f, p))
     = f @ concat (map (\<lambda>k. case fst (fetch_segment w mtpl key ivb k (tms ! k)) of
                               None \<Rightarrow> [] | Some d \<Rightarrow> d) [bs..<length tms])"
proof (induction w mtpl key ivb tms bs "(f, p)" arbitrary: f p rule: batch_loop.induct)
  case (1 w mtpl key ivb tms bs f p)
  show ?case
  proof (cases "bs < length tms")
    case True
    let ?F = "\<lambda>k t. fst (fetch_segment w mtpl key ivb k t)"
    let ?results = "map (\<lambda>(j, t). ?F (bs + j) t) (enumerate 0 (take 30 (drop bs tms)))"
    have step: "batch_loop w mtpl key ivb tms bs (f, p)
            = batch_loop w mtpl key ivb tms (bs + 30)
                (write_results f ?results, p @ [(min (bs + 30) (length tms), length tms)])"
      using True by (subst batch_loop.simps) (simp add: Let_def)
    have res: "?results = map (\<lambda>k. ?F k (tms ! k)) [bs..<min (bs + 30) (length tms)]"
      by (rule batch_results)
    have split: "[bs..<length tms] = [bs..<min (bs + 30) (length tms)] @ [bs + 30..<length tms]"
      by (rule upt_batches [OF True])
    show ?thesis
      unfolding step
      apply (subst "1.hyps" [OF refl True refl refl refl])
      apply (subst res)
      apply (subst split)
      apply (simp add: write_results_concat o_def)
      done
  next
    case False
    then show ?thesis by (subst batch_loop.simps) simp
  qed
qed

lemma download_Inr:
  assumes "download_dash_audio w m = Inr s"
  shows "\<exists>adapts trk key_resp init_resp init_data.
        Period m = Some adapts
      \<and> select_loop (unescape w) (py_int w) (BaseURL m) adapts None = Inr (Some trk)
      \<and> get_key w (key_url trk) = Inr key_resp \<and> status_code key_resp = 200
      \<and> get_init w (init_url trk) = Inr init_resp \<and> status_code init_resp = 200
      \<and> decrypt (aes_dec w) (content init_resp) (content key_resp) (iv trk) = Inr init_data
      \<and> buffer s = fst (batch_loop w (media_tpl trk) (content key_resp) (iv trk)
                          (segment_times trk) 0 (init_data, []))
      \<and> progress s = snd (batch_loop w (media_tpl trk) (content key_resp) (iv trk)
                          (segment_times trk) 0 (init_data, []))
      \<and> ffmpeg w (buffer s) = 0"
  using assms
  by (auto simp: download_dash_audio_def Let_def split: option.splits sum.splits prod.splits if_splits)

lemma parse_adaptation_set_times:
  assumes "parse_adaptation_set unesc pint a base = Inr t"
  shows "\<exists>seg ss. SegmentTemplate a = Some seg \<and> SegmentTimeline seg = Some ss
           \<and> expand_timeline pint ss = Inr (segment_times t)"
  using assms
  by (auto simp: parse_adaptation_set_def Let_def split: option.splits sum.splits)

lemma select_loop_skip:
  "contentType a \<noteq> Some ''audio'' \<Longrightarrow>
     select_loop unesc pint base (a # rest) cur = select_loop unesc pint base rest cur"
  by simp

lemma select_loop_audio:
  "contentType a = Some ''audio'' \<Longrightarrow>
     select_loop unesc pint base (a # rest) cur =
       (case parse_adaptation_set unesc pint a base of
          Inl e \<Rightarrow> Inl e
        | Inr t \<Rightarrow>
            select_loop unesc pint base rest
              (if cur = None \<or> label_of a = Some ''OriginalAudio''
               then Some (track.extend t (audio_track.fields (label_of a))) else cur))"
  by (auto simp: Let_def split: sum.split)

lemma select_loop_member:
  "select_loop unesc pint base adapts cur = Inr (Some trk) \<Longrightarrow>
     cur = Some trk \<or>
     (\<exists>a \<in> set adapts. contentType a = Some ''audio'' \<and>
        (\<exists>t. parse_adaptation_set unesc pint a base = Inr t
             \<and> trk = track.extend t (audio_track.fields (label_of a))))"
proof (induction adapts arbitrary: cur)
  case Nil
  then show ?case by simp
next
  case (Cons a adapts)
  show ?case
  proof (cases "contentType a = Some ''audio''")
    case False
    with Cons.prems have "select_loop unesc pint base adapts cur = Inr (Some trk)"
      by simp
    from Cons.IH [OF this] show ?thesis by auto
  next
    case True
    from Cons.prems have p: "(case parse_adaptation_set unesc pint a base of
          Inl e \<Rightarrow> Inl e
        | Inr t \<Rightarrow>
            select_loop unesc pint base adapts
              (if cur = None \<or> label_of a = Some ''OriginalAudio''
               then Some (track.extend t (audio_track.fields (label_of a))) else cur))
        = Inr (Some trk)"
      unfolding select_loop_audio [OF True] .
    then obtain t where t: "parse_adaptation_set unesc pint a base = Inr t"
      by (cases "parse_adaptation_set unesc pint a base") auto
    let ?new = "Some (track.extend t (audio_track.fields (label_of a)))"
    from p t
    consider "select_loop unesc pint base adapts ?new = Inr (Some trk)"
      | "select_loop unesc pint base adapts cur = Inr (Some trk)"
      by (auto split: if_splits)
    then show ?thesis
    proof cases
      case 1
      from Cons.IH [OF 1] True t show ?thesis by auto
    next
      case 2
      from Cons.IH [OF 2] show ?thesis by auto
    qed
  qed
qed

lemma segment_times_extend [simp]: "segment_times (track.extend t x) = segment_times t"
  by (simp add: track.defs)

lemma track_extend_fields [simp]:
  "key_url (track.extend t x) = key_url t" "iv (track.extend t x) = iv t"
  "init_url (track.extend t x) = init_url t" "media_tpl (track.extend t x) = media_tpl t"
  by (simp_all add: track.defs)

text \<open>
  Claim C1. In every session that ends with a result, the selected track is the parse of an
  audio set of the manifest, its start times are the expansion of that set's timeline, and
  the assembled file is exactly the plaintext of the init segment followed, for every
  position of the timeline in order and once each, by the plaintext that the fetch of that
  segment returned, or by nothing when the segment was unavailable: no placeholder, and the
  order of the others is kept, in whatever order the fetches completed. When the durations
  of the timeline are positive, the order of the timeline is strictly ascending start
  time, so no start time occurs twice.
\<close>

theorem assembled_in_timeline_order:
  assumes "download_dash_audio w m = Inr s"
  shows "\<exists>adapts a seg ss t key_resp init_resp init_data.
      Period m = Some adapts \<and> a \<in> set adapts \<and> contentType a = Some ''audio''
    \<and> parse_adaptation_set (unescape w) (py_int w) a (BaseURL m) = Inr t
    \<and> SegmentTemplate a = Some seg \<and> SegmentTimeline seg = Some ss
    \<and> expand_timeline (py_int w) ss = Inr (segment_times t)
    \<and> get_key w (key_url t) = Inr key_resp
    \<and> get_init w (init_url t) = Inr init_resp
    \<and> decrypt (aes_dec w) (content init_resp) (content key_resp) (iv t) = Inr init_data
    \<and> buffer s = init_data @ concat (map
          (\<lambda>j. case fst (fetch_segment w (media_tpl t) (content key_resp) (iv t) j (segment_times t ! j))
                of None \<Rightarrow> [] | Some d \<Rightarrow> d)
          [0..<length (segment_times t)])
    \<and> (\<forall>es. map (read_S (py_int w)) ss = map Inr es \<and> (\<forall>(d, r) \<in> set es. 0 < d)
           \<longrightarrow> sorted_wrt (<) (segment_times t))"
proof -
  from download_Inr [OF assms] obtain adapts trk key_resp init_resp init_data where
    per: "Period m = Some adapts"
    and sel: "select_loop (unescape w) (py_int w) (BaseURL m) adapts None = Inr (Some trk)"
    and key: "get_key w (key_url trk) = Inr key_resp"
    and ini: "get_init w (init_url trk) = Inr init_resp"
    and dec: "decrypt (aes_dec w) (content init_resp) (content key_resp) (iv trk) = Inr init_data"
    and buf: "buffer s = fst (batch_loop w (media_tpl trk) (content key_resp) (iv trk)
                          (segment_times trk) 0 (init_data, []))"
    by blast
  from select_loop_member [OF sel] obtain a t where
    a: "a \<in> set adapts" "contentType a = Some ''audio''"
    and t: "parse_adaptation_set (unescape w) (py_int w) a (BaseURL m) = Inr t"
    and trk: "trk = track.extend t (audio_track.fields (label_of a))"
    by auto
  from parse_adaptation_set_times [OF t] obtain seg ss where
    seg: "SegmentTemplate a = Some seg" "SegmentTimeline seg = Some ss"
    and ex: "expand_timeline (py_int w) ss = Inr (segment_times t)"
    by blast
  have asc: "sorted_wrt (<) (segment_times t)"
    if "map (read_S (py_int w)) ss = map Inr es" and "\<forall>(d, r) \<in> set es. 0 < d" for es
  proof -
    from expand_timeline_clock [OF that(1)] ex have "segment_times t = spec_clock 0 es" by simp
    then show ?thesis using spec_clock_strict [OF that(2), of 0] by simp
  qed
  have b: "buffer s = init_data @ concat (map
          (\<lambda>j. case fst (fetch_segment w (media_tpl t) (content key_resp) (iv t) j (segment_times t ! j))
                of None \<Rightarrow> [] | Some d \<Rightarrow> d)
          [0..<length (segment_times t)])"
    using buf unfolding batch_loop_concat trk by simp
  from per a t seg ex key ini dec b asc show ?thesis
    unfolding trk track_extend_fields by blast
qed

theorem assembled_in_timeline_order_witness:
  "download_dash_audio world_gap manifest0 =
     Inr \<lparr>buffer = [0, 1, 0, 1, 0, 3, 2, 13, 5, 5, 5]
                     @ [64, 67, 66, 69, 68, 71, 70, 73, 72, 75, 74, 77, 76, 79, 78, 81]
                     @ [0, 1, 0, 1, 0, 3, 2, 13, 5, 5, 5],
          progress = [(3, 3)]\<rparr>"
proof -
  have h: "download_dash_audio world_gap manifest0 =
     Inr \<lparr>buffer = [0, 1, 0, 1, 0, 3, 2, 13, 5, 5, 5, 64, 67, 66, 69, 68, 71, 70, 73,
         72, 75, 74, 77, 76, 79, 78, 81, 0, 1, 0, 1, 0, 3, 2, 13, 5, 5, 5],
          progress = [(3, 3)]\<rparr>"
    by code_simp
  from assembled_in_timeline_order [OF h]
  have "\<exists>adapts. Period manifest0 = Some adapts" by blast
  with h show ?thesis by simp
qed

section \<open>Track selection\<close>

lemma select_loop_char:
  fixes unesc pint base
  defines "mk \<equiv> (\<lambda>a. track.extend (projr (parse_adaptation_set unesc pint a base))
                       (audio_track.fields (label_of a)))"
  assumes "\<forall>a \<in> set adapts. is_audio a \<longrightarrow> (\<exists>t. parse_adaptation_set unesc pint a base = Inr t)"
  shows "select_loop unesc pint base adapts cur =
     Inr (case filter is_original adapts of
            [] \<Rightarrow> (case cur of
                     Some c \<Rightarrow> Some c
                   | None \<Rightarrow> (case filter is_audio adapts of [] \<Rightarrow> None | a # _ \<Rightarrow> Some (mk a)))
          | os \<Rightarrow> Some (mk (last os)))"
  using assms(2)
proof (induction adapts arbitrary: cur)
  case Nil
  then show ?case by (simp split: option.split)
next
  case (Cons a adapts)
  from Cons.prems have all: "\<forall>a \<in> set adapts. is_audio a \<longrightarrow> (\<exists>t. parse_adaptation_set unesc pint a base = Inr t)"
    by simp
  note IH = Cons.IH [OF all]
  show ?case
  proof (cases "is_audio a")
    case False
    then have skip: "select_loop unesc pint base (a # adapts) cur = select_loop unesc pint base adapts cur"
      by (simp add: is_audio_def)
    from False have no: "\<not> is_original a" by (simp add: is_original_def)
    show ?thesis unfolding skip IH using False no by (simp split: list.split option.split)
  next
    case True
    with Cons.prems obtain t where t: "parse_adaptation_set unesc pint a base = Inr t" by auto
    then have mk: "track.extend t (audio_track.fields (label_of a)) = mk a" by (simp add: mk_def)
    have step: "select_loop unesc pint base (a # adapts) cur =
            select_loop unesc pint base adapts
              (if cur = None \<or> label_of a = Some ''OriginalAudio'' then Some (mk a) else cur)"
      using True t mk by (simp add: select_loop_audio is_audio_def)
    have orig: "is_original a \<longleftrightarrow> label_of a = Some ''OriginalAudio''"
      using True by (simp add: is_original_def)
    show ?thesis
      unfolding step IH using True orig
      by (auto split: list.splits option.splits)
  qed
qed


lemma select_loop_filter:
  "select_loop unesc pint base (filter is_audio adapts) cur = select_loop unesc pint base adapts cur"
proof (induction adapts arbitrary: cur)
  case (Cons a adapts)
  show ?case
  proof (cases "is_audio a")
    case True
    then have ca: "contentType a = Some ''audio''" by (simp add: is_audio_def)
    have f: "filter is_audio (a # adapts) = a # filter is_audio adapts" using True by simp
    show ?thesis unfolding f select_loop_audio [OF ca] by (simp add: Cons.IH split: sum.split)
  next
    case False
    then have ca: "contentType a \<noteq> Some ''audio''" by (simp add: is_audio_def)
    have f: "filter is_audio (a # adapts) = filter is_audio adapts" using False by simp
    show ?thesis unfolding f select_loop_skip [OF ca] by (rule Cons.IH)
  qed
qed simp

lemma select_loop_Inr_None:
  "filter is_audio adapts = [] \<Longrightarrow> select_loop unesc pint base adapts None = Inr None"
  using select_loop_filter [of unesc pint base adapts None] by simp

lemma download_no_audio:
  "Period m = Some adapts \<Longrightarrow> filter is_audio adapts = [] \<Longrightarrow>
     download_dash_audio w m = Inl NoAudioTrack"
  by (simp add: download_dash_audio_def select_loop_Inr_None)

text \<open>
  Claim C5. Let every audio set of the manifest's period parse. Track selection looks at
  the sets with \<open>contentType == "audio"\<close> only. When there is none, no track is selected
  and the download fails with the no-audio-track error. When no audio set is labelled
  \<open>OriginalAudio\<close>, the first audio set in document order is selected. When some audio
  set is labelled \<open>OriginalAudio\<close>, a set so labelled is selected, wherever it stands in
  the document; and at any point of the scan such a set replaces whatever candidate was
  selected before it.
\<close>

theorem track_selection:
  assumes "Period m = Some adapts"
      and "\<forall>a \<in> set adapts. is_audio a \<longrightarrow>
             (\<exists>t. parse_adaptation_set (unescape w) (py_int w) a (BaseURL m) = Inr t)"
  shows "select_loop (unescape w) (py_int w) (BaseURL m) adapts None
           = select_loop (unescape w) (py_int w) (BaseURL m) (filter is_audio adapts) None
       \<and> (filter is_audio adapts = [] \<longrightarrow>
            select_loop (unescape w) (py_int w) (BaseURL m) adapts None = Inr None
          \<and> download_dash_audio w m = Inl NoAudioTrack)
       \<and> (\<forall>a1 rest. filter is_audio adapts = a1 # rest \<and> filter is_original adapts = [] \<longrightarrow>
            (\<exists>t. parse_adaptation_set (unescape w) (py_int w) a1 (BaseURL m) = Inr t
               \<and> select_loop (unescape w) (py_int w) (BaseURL m) adapts None
                   = Inr (Some (track.extend t (audio_track.fields (label_of a1))))))
       \<and> (filter is_original adapts \<noteq> [] \<longrightarrow>
            (\<exists>a \<in> set adapts. \<exists>t. is_original a
               \<and> parse_adaptation_set (unescape w) (py_int w) a (BaseURL m) = Inr t
               \<and> select_loop (unescape w) (py_int w) (BaseURL m) adapts None
                   = Inr (Some (track.extend t (audio_track.fields (Some ''OriginalAudio''))))))
       \<and> (\<forall>a rest cur t. is_original a
              \<and> parse_adaptation_set (unescape w) (py_int w) a (BaseURL m) = Inr t \<longrightarrow>
            select_loop (unescape w) (py_int w) (BaseURL m) (a # rest) cur
              = select_loop (unescape w) (py_int w) (BaseURL m) rest
                  (Some (track.extend t (audio_track.fields (Some ''OriginalAudio'')))))"
proof -
  let ?parse = "\<lambda>a. parse_adaptation_set (unescape w) (py_int w) a (BaseURL m)"
  let ?sel = "select_loop (unescape w) (py_int w) (BaseURL m)"
  note char = select_loop_char [OF assms(2), of None]
  have c1: "?sel adapts None = ?sel (filter is_audio adapts) None"
    by (simp add: select_loop_filter)
  have c2: "?sel adapts None = Inr None \<and> download_dash_audio w m = Inl NoAudioTrack"
    if "filter is_audio adapts = []"
    using that assms(1) by (simp add: select_loop_Inr_None download_no_audio)
  have c3: "\<exists>t. ?parse a1 = Inr t
               \<and> ?sel adapts None = Inr (Some (track.extend t (audio_track.fields (label_of a1))))"
    if "filter is_audio adapts = a1 # rest" and "filter is_original adapts = []" for a1 rest
  proof -
    from that(1) have "a1 \<in> set (filter is_audio adapts)" by simp
    then have "a1 \<in> set adapts" "is_audio a1" by simp_all
    with assms(2) obtain t where t: "?parse a1 = Inr t" by auto
    then show ?thesis using char that by simp
  qed
  have c4: "\<exists>a \<in> set adapts. \<exists>t. is_original a \<and> ?parse a = Inr t
               \<and> ?sel adapts None = Inr (Some (track.extend t (audio_track.fields (Some ''OriginalAudio''))))"
    if "filter is_original adapts \<noteq> []"
  proof -
    let ?a = "last (filter is_original adapts)"
    from that have "?a \<in> set (filter is_original adapts)" by (rule last_in_set)
    then have a: "?a \<in> set adapts" "is_original ?a" by simp_all
    with assms(2) obtain t where t: "?parse ?a = Inr t" by (auto simp: is_original_def)
    from a(2) have l: "label_of ?a = Some ''OriginalAudio''" by (simp add: is_original_def)
    from that obtain x xs where "filter is_original adapts = x # xs"
      by (cases "filter is_original adapts") auto
    then have "?sel adapts None = Inr (Some (track.extend t (audio_track.fields (Some ''OriginalAudio''))))"
      using char t l by simp
    with a t show ?thesis by blast
  qed
  have c5: "?sel (a # rest) cur = ?sel rest (Some (track.extend t (audio_track.fields (Some ''OriginalAudio''))))"
    if "is_original a" and "?parse a = Inr t" for a rest cur t
    using that by (simp add: select_loop_audio is_original_def is_audio_def)
  from c1 c2 c3 c4 c5 show ?thesis by blast
qed


text \<open>
  Claim C10. Let every audio set parse. When one or more audio sets (so also two or more)
  are labelled exactly \<open>OriginalAudio\<close>, the selected track is the last of them in
  document order. An audio set without a \<open>Label\<close> element has the label \<open>audio\<close>, and
  when it is the first audio set and no set is labelled \<open>OriginalAudio\<close> it is the one
  selected, under that label.
\<close>

theorem track_selection_last_original:
  assumes "\<forall>a \<in> set adapts. is_audio a \<longrightarrow> (\<exists>t. parse_adaptation_set unesc pint a base = Inr t)"
  shows "(\<forall>origs. filter is_original adapts = origs \<and> origs \<noteq> [] \<longrightarrow>
            (\<exists>t. parse_adaptation_set unesc pint (last origs) base = Inr t
               \<and> select_loop unesc pint base adapts None
                   = Inr (Some (track.extend t (audio_track.fields (Some ''OriginalAudio''))))))
       \<and> (\<forall>a. Label a = None \<longrightarrow> label_of a = Some ''audio'')
       \<and> (\<forall>a1 rest. filter is_audio adapts = a1 # rest \<and> Label a1 = None
                     \<and> filter is_original adapts = [] \<longrightarrow>
            (\<exists>t. parse_adaptation_set unesc pint a1 base = Inr t
               \<and> select_loop unesc pint base adapts None
                   = Inr (Some (track.extend t (audio_track.fields (Some ''audio''))))))"
proof -
  note char = select_loop_char [OF assms, of None]
  have c1: "\<exists>t. parse_adaptation_set unesc pint (last origs) base = Inr t
               \<and> select_loop unesc pint base adapts None
                   = Inr (Some (track.extend t (audio_track.fields (Some ''OriginalAudio''))))"
    if "filter is_original adapts = origs" and "origs \<noteq> []" for origs
  proof -
    from that have "last origs \<in> set (filter is_original adapts)" by simp
    then have a: "last origs \<in> set adapts" "is_original (last origs)" by simp_all
    with assms obtain t where t: "parse_adaptation_set unesc pint (last origs) base = Inr t"
      by (auto simp: is_original_def)
    from a(2) have l: "label_of (last origs) = Some ''OriginalAudio''" by (simp add: is_original_def)
    from that obtain x xs where "filter is_original adapts = x # xs" and "origs = x # xs"
      by (cases origs) auto
    then show ?thesis using char t l by simp
  qed
  have c2: "label_of a = Some ''audio''" if "Label a = None" for a
    using that by (simp add: label_of_def)
  have c3: "\<exists>t. parse_adaptation_set unesc pint a1 base = Inr t
               \<and> select_loop unesc pint base adapts None
                   = Inr (Some (track.extend t (audio_track.fields (Some ''audio''))))"
    if "filter is_audio adapts = a1 # rest" and "Label a1 = None"
      and "filter is_original adapts = []" for a1 rest
  proof -
    from that(1) have "a1 \<in> set (filter is_audio adapts)" by simp
    then have "a1 \<in> set adapts" "is_audio a1" by simp_all
    with assms obtain t where t: "parse_adaptation_set unesc pint a1 base = Inr t" by auto
    then show ?thesis using char that c2 [OF that(2)] by simp
  qed
  from c1 c2 c3 show ?thesis by blast
qed


lemma parse_adapt_audio:
  "parse_adaptation_set (unescape world0) (py_int world0) adapt_audio ''https://host/''
     = Inr \<lparr>key_url = ''https://host/key'', iv = [0, 0, 0, 0, 0, 0, 0, 0, 0, 0, 0, 0, 0, 0, 0, 0],
            init_url = ''https://host/init-a1.mp4'', media_tpl = ''https://host/seg-a1-$Time$.m4s'',
            segment_times = [0, 4, 8]\<rparr>"
  by code_simp

lemma parse_adapt_original_1:
  "parse_adaptation_set (unescape world0) (py_int world0) adapt_original_1 ''https://host/''
     = Inr \<lparr>key_url = ''https://host/key'', iv = [0, 0, 0, 0, 0, 0, 0, 0, 0, 0, 0, 0, 0, 0, 0, 0],
            init_url = ''https://host/init-o1.mp4'', media_tpl = ''https://host/seg-o1-$Time$.m4s'',
            segment_times = [0, 4, 8]\<rparr>"
  by code_simp

lemma parse_adapt_original_2:
  "parse_adaptation_set (unescape world0) (py_int world0) adapt_original_2 ''https://host/''
     = Inr \<lparr>key_url = ''https://host/key'', iv = [0, 0, 0, 0, 0, 0, 0, 0, 0, 0, 0, 0, 0, 0, 0, 0],
            init_url = ''https://host/init-o2.mp4'', media_tpl = ''https://host/seg-o2-$Time$.m4s'',
            segment_times = [0, 4, 8]\<rparr>"
  by code_simp

lemma fixture_kinds:
  "is_audio adapt_audio" "is_audio adapt_original_1" "is_audio adapt_original_2"
  "\<not> is_audio adapt_video" "\<not> is_original adapt_audio" "is_original adapt_original_1"
  "is_original adapt_original_2" "\<not> is_original adapt_video"
  by (simp_all add: is_audio_def is_original_def label_of_def adapt_audio_def adapt_original_1_def
      adapt_original_2_def adapt_video_def)

theorem track_selection_witness:
  "select_loop (unescape world0) (py_int world0) (BaseURL manifest_generic_first)
     [adapt_audio, adapt_original_1] None
   = Inr (Some \<lparr>key_url = ''https://host/key'', iv = [0, 0, 0, 0, 0, 0, 0, 0, 0, 0, 0, 0, 0, 0, 0, 0],
            init_url = ''https://host/init-o1.mp4'', media_tpl = ''https://host/seg-o1-$Time$.m4s'',
            segment_times = [0, 4, 8], label = Some ''OriginalAudio''\<rparr>)"
proof -
  have b: "BaseURL manifest_generic_first = ''https://host/''"
    by (simp add: manifest_generic_first_def)
  have per: "Period manifest_generic_first = Some [adapt_audio, adapt_original_1]"
    by (simp add: manifest_generic_first_def)
  have all: "\<forall>a \<in> set [adapt_audio, adapt_original_1]. is_audio a \<longrightarrow>
     (\<exists>t. parse_adaptation_set (unescape world0) (py_int world0) a (BaseURL manifest_generic_first) = Inr t)"
    by (simp add: b parse_adapt_audio parse_adapt_original_1)
  from track_selection [OF per all]
  have "\<exists>a \<in> set [adapt_audio, adapt_original_1]. \<exists>t. is_original a
          \<and> parse_adaptation_set (unescape world0) (py_int world0) a (BaseURL manifest_generic_first) = Inr t
          \<and> select_loop (unescape world0) (py_int world0) (BaseURL manifest_generic_first)
               [adapt_audio, adapt_original_1] None
              = Inr (Some (track.extend t (audio_track.fields (Some ''OriginalAudio''))))"
    by (simp add: fixture_kinds)
  then show ?thesis
    by (simp add: fixture_kinds b parse_adapt_original_1 track.defs audio_track.defs)
qed

theorem track_selection_last_original_witness:
  "select_loop (unescape world0) (py_int world0) ''https://host/''
     [adapt_original_1, adapt_video, adapt_audio, adapt_original_2] None
   = Inr (Some \<lparr>key_url = ''https://host/key'', iv = [0, 0, 0, 0, 0, 0, 0, 0, 0, 0, 0, 0, 0, 0, 0, 0],
            init_url = ''https://host/init-o2.mp4'', media_tpl = ''https://host/seg-o2-$Time$.m4s'',
            segment_times = [0, 4, 8], label = Some ''OriginalAudio''\<rparr>)"
proof -
  let ?adapts = "[adapt_original_1, adapt_video, adapt_audio, adapt_original_2]"
  have all: "\<forall>a \<in> set ?adapts. is_audio a \<longrightarrow>
     (\<exists>t. parse_adaptation_set (unescape world0) (py_int world0) a ''https://host/'' = Inr t)"
    by (simp add: fixture_kinds parse_adapt_audio parse_adapt_original_1 parse_adapt_original_2)
  have f: "filter is_original ?adapts = [adapt_original_1, adapt_original_2]"
    by (simp add: fixture_kinds)
  from track_selection_last_original [OF all] f
  have "\<exists>t. parse_adaptation_set (unescape world0) (py_int world0) adapt_original_2 ''https://host/'' = Inr t
          \<and> select_loop (unescape world0) (py_int world0) ''https://host/'' ?adapts None
              = Inr (Some (track.extend t (audio_track.fields (Some ''OriginalAudio''))))"
    by simp
  then show ?thesis
    by (simp add: parse_adapt_original_2 track.defs audio_track.defs)
qed

section \<open>The IV of a parsed adaptation set\<close>

lemma hex_val_x: "hex_val ch \<noteq> None \<Longrightarrow> ch \<noteq> CHR ''x''"
  by (auto simp: hex_val_def)

lemma hex_val_not_space: "hex_val ch \<noteq> None \<Longrightarrow> \<not> is_space ch"
  by (auto simp: hex_val_def is_space_def Let_def split: if_splits)

lemma replace_0x_none: "CHR ''x'' \<notin> set s \<Longrightarrow> replace_from ''0x'' new 0 s = s"
  by (induction s) (auto simp: prefix_def)

lemma replace_0x_prefix:
  "CHR ''x'' \<notin> set hs \<Longrightarrow> py_replace ''0x'' '''' (''0x'' @ hs) = hs"
  by (simp add: py_replace_def replace_0x_none)

lemma fromhex_digits:
  "\<forall>ch \<in> set hs. hex_val ch \<noteq> None \<Longrightarrow> even (length hs) \<Longrightarrow>
     \<exists>bs. fromhex hs = Inr bs \<and> length bs = length hs div 2"
proof (induction hs rule: fromhex.induct)
  case 1
  then show ?case by simp
next
  case (2 c)
  then show ?case by simp
next
  case (3 c c2 cs)
  from "3.prems" obtain hi lo where hv: "hex_val c = Some hi" "hex_val c2 = Some lo" by auto
  from "3.prems" have sp: "\<not> is_space c" by (simp add: hex_val_not_space)
  from "3.prems" have "\<forall>ch \<in> set cs. hex_val ch \<noteq> None" "even (length cs)" by simp_all
  from "3.IH"(2) [OF sp hv(1) hv(2) this] obtain bs where "fromhex cs = Inr bs" "length bs = length cs div 2"
    by blast
  then show ?case using sp hv by simp
qed

lemma default_iv: "fromhex (py_replace ''0x'' '''' ''0x00000000000000000000000000000000'') = Inr (replicate 16 0)"
  by code_simp

lemma parse_adaptation_set_iv:
  assumes "parse_adaptation_set unesc pint a base = Inr t"
  shows "fromhex (py_replace ''0x'' ''''
           (case crypto_of a of None \<Rightarrow> ''''
            | Some c \<Rightarrow> (case IV c of None \<Rightarrow> ''0x00000000000000000000000000000000'' | Some v \<Rightarrow> v)))
         = Inr (iv t)"
  using assms
  by (auto simp: parse_adaptation_set_def Let_def split: option.splits sum.splits)

text \<open>
  Claim C7, amended. For every adaptation set that parses, the resolved IV is the
  hexadecimal decoding of the \<open>IV\<close> attribute after every \<open>0x\<close> in it is removed, of
  whatever length that is. It has exactly 16 bytes when the attribute is \<open>0x\<close> followed by
  32 hexadecimal digits, and it is 16 zero bytes when the \<open>CryptoPeriod\<close> is there without
  an \<open>IV\<close> attribute. When the \<open>ContentProtection\<close> element or its \<open>CryptoPeriod\<close> is
  absent, the IV is the empty byte string.
\<close>

theorem resolved_iv:
  assumes "parse_adaptation_set unesc pint a base = Inr t"
  shows "(crypto_of a = None \<longrightarrow> iv t = [])
       \<and> (\<forall>c. crypto_of a = Some c \<and> IV c = None \<longrightarrow> iv t = replicate 16 0)
       \<and> (\<forall>c v. crypto_of a = Some c \<and> IV c = Some v \<longrightarrow>
             fromhex (py_replace ''0x'' '''' v) = Inr (iv t))
       \<and> (\<forall>c hs. crypto_of a = Some c \<and> IV c = Some (''0x'' @ hs) \<and> length hs = 32
                  \<and> (\<forall>ch \<in> set hs. hex_val ch \<noteq> None) \<longrightarrow>
             fromhex hs = Inr (iv t) \<and> length (iv t) = 16)"
proof -
  note p = parse_adaptation_set_iv [OF assms]
  have c1: "iv t = []" if "crypto_of a = None"
    using p that by (simp add: py_replace_def)
  have c2: "iv t = replicate 16 0" if "crypto_of a = Some c" "IV c = None" for c
    using p that default_iv by simp
  have c3: "fromhex (py_replace ''0x'' '''' v) = Inr (iv t)"
    if "crypto_of a = Some c" "IV c = Some v" for c v
    using p that by simp
  have c4: "fromhex hs = Inr (iv t) \<and> length (iv t) = 16"
    if "crypto_of a = Some c" "IV c = Some (''0x'' @ hs)" "length hs = 32"
      "\<forall>ch \<in> set hs. hex_val ch \<noteq> None" for c hs
  proof -
    from that(4) have "CHR ''x'' \<notin> set hs" using hex_val_x by blast
    then have "py_replace ''0x'' '''' (''0x'' @ hs) = hs" by (rule replace_0x_prefix)
    with c3 [OF that(1,2)] have f: "fromhex hs = Inr (iv t)" by simp
    from fromhex_digits [OF that(4)] that(3) obtain bs where "fromhex hs = Inr bs" "length bs = 16"
      by auto
    with f show ?thesis by simp
  qed
  from c1 c2 c3 c4 show ?thesis by blast
qed


text \<open>
  Claim C7, as stated, fails: an audio set without an encryption descriptor parses with an
  empty IV, not 16 zero bytes, and an \<open>IV\<close> attribute of two bytes gives an IV of two
  bytes.
\<close>

theorem resolved_iv_counterexample:
  "parse_adaptation_set (unescape world0) (py_int world0) adapt_clear ''https://host/''
     = Inr \<lparr>key_url = [], iv = [], init_url = ''https://host/init-a1.mp4'',
            media_tpl = ''https://host/seg-a1-$Time$.m4s'', segment_times = [0, 4, 8]\<rparr>
   \<and> parse_adaptation_set (unescape world0) (py_int world0) adapt_short_iv ''https://host/''
     = Inr \<lparr>key_url = ''https://host/key'', iv = [1, 2], init_url = ''https://host/init-a1.mp4'',
            media_tpl = ''https://host/seg-a1-$Time$.m4s'', segment_times = [0, 4, 8]\<rparr>"
  by code_simp

theorem resolved_iv_witness:
  "parse_adaptation_set (unescape world0) (py_int world0) adapt_long_iv ''https://host/''
     = Inr \<lparr>key_url = ''https://host/key'',
            iv = [0, 1, 2, 3, 4, 5, 6, 7, 8, 9, 10, 11, 12, 13, 14, 15],
            init_url = ''https://host/init-a1.mp4'',
            media_tpl = ''https://host/seg-a1-$Time$.m4s'', segment_times = [0, 4, 8]\<rparr>
   \<and> fromhex ''000102030405060708090a0B0c0D0e0F''
     = Inr [0, 1, 2, 3, 4, 5, 6, 7, 8, 9, 10, 11, 12, 13, 14, 15]"
proof -
  let ?t = "\<lparr>key_url = ''https://host/key'',
            iv = [0, 1, 2, 3, 4, 5, 6, 7, 8, 9, 10, 11, 12, 13, 14, 15],
            init_url = ''https://host/init-a1.mp4'',
            media_tpl = ''https://host/seg-a1-$Time$.m4s'', segment_times = [0, 4, 8]\<rparr>"
  let ?c = "\<lparr>keyUriTemplate = Some ''https://host/key'',
             IV = Some ''0x000102030405060708090a0B0c0D0e0F''\<rparr>"
  have h: "parse_adaptation_set (unescape world0) (py_int world0) adapt_long_iv ''https://host/''
             = Inr ?t"
    by code_simp
  have c: "crypto_of adapt_long_iv = Some ?c"
    by (simp add: crypto_of_def adapt_long_iv_def)
  have hx: "\<forall>ch \<in> set ''000102030405060708090a0B0c0D0e0F''. hex_val ch \<noteq> None"
    by code_simp
  from resolved_iv [OF h] c hx
  have "fromhex ''000102030405060708090a0B0c0D0e0F'' = Inr (iv ?t)"
    by simp
  with h show ?thesis by simp
qed

section \<open>What a session reports\<close>







end
